theory Spec2Isabelle
  imports Main "HOL-Library.AList" "HOL-Library.Multiset"
begin

section \<open>Data model\<close>

text \<open>
  A node is a k-mer, a Python string. A Python dictionary keeps its keys in insertion
  order and \<open>find_unitigs\<close> iterates \<open>adj.keys()\<close>, so a dictionary is an
  association list with the oldest key first. All three dictionaries of the source are
  \<open>defaultdict\<close>s: reading a missing key inserts the default at the end and returns it.
\<close>

type_synonym node = string

datatype py_error = IndexError

text \<open>\<open>d[k]\<close> on a \<open>defaultdict\<close>: the value read, and the dictionary left behind.\<close>

definition dd_val :: "('k \<times> 'v) list \<Rightarrow> 'v \<Rightarrow> 'k \<Rightarrow> 'v" where
  "dd_val d dflt k = (case map_of d k of Some v \<Rightarrow> v | None \<Rightarrow> dflt)"

definition dd_touch :: "('k \<times> 'v) list \<Rightarrow> 'v \<Rightarrow> 'k \<Rightarrow> ('k \<times> 'v) list" where
  "dd_touch d dflt k = (if k \<in> fst ` set d then d else d @ [(k, dflt)])"

text \<open>\<open>d[k] = v\<close>: an existing key keeps its position, a new key goes to the end.\<close>

definition dd_put :: "'k \<Rightarrow> 'v \<Rightarrow> ('k \<times> 'v) list \<Rightarrow> ('k \<times> 'v) list" where
  "dd_put k v d = AList.update k v d"

text \<open>\<open>d[k] += n\<close> on a \<open>defaultdict(int)\<close>.\<close>

definition dd_incr :: "('k \<times> int) list \<Rightarrow> 'k \<Rightarrow> int \<Rightarrow> ('k \<times> int) list" where
  "dd_incr d k n = dd_put k (dd_val d 0 k + n) d"

record graph =
  adj :: "(node \<times> node list) list"
  indeg :: "(node \<times> int) list"
  outdeg :: "(node \<times> int) list"

definition empty_graph :: graph where
  "empty_graph = \<lparr>adj = [], indeg = [], outdeg = []\<rparr>"

section \<open>The graph builder (debruijn.py)\<close>

text \<open>
  Python's \<open>s[a:b]\<close>: a negative index counts from the end, and both indices are
  clamped to the string, so slicing never fails.
\<close>

definition py_clamp :: "int \<Rightarrow> int \<Rightarrow> int" where
  "py_clamp n i = (if i < 0 then max (i + n) 0 else min i n)"

definition py_slice :: "'a list \<Rightarrow> int \<Rightarrow> int \<Rightarrow> 'a list" where
  "py_slice xs a b =
     (let n = int (length xs); s = py_clamp n a; e = py_clamp n b
      in take (nat (e - s)) (drop (nat s) xs))"

text \<open>\<open>range(n)\<close> for an integer \<open>n\<close>: empty when \<open>n \<le> 0\<close>.\<close>

definition py_range :: "int \<Rightarrow> int list" where
  "py_range n = [0..n - 1]"

text \<open>The body of the inner loop, lines 23 to 28, for one edge \<open>u \<rightarrow> v\<close>.\<close>

definition add_edge :: "graph \<Rightarrow> node \<Rightarrow> node \<Rightarrow> graph" where
  "add_edge g u v =
     (let adj1 = dd_put u (dd_val (adj g) [] u @ [v]) (adj g);
          outdeg1 = dd_incr (outdeg g) u 1;
          indeg1 = dd_incr (indeg g) v 1;
          indeg2 = dd_incr indeg1 u 0;
          outdeg2 = dd_incr outdeg1 v 0
      in \<lparr>adj = adj1, indeg = indeg2, outdeg = outdeg2\<rparr>)"

definition window_step :: "int \<Rightarrow> node \<Rightarrow> graph \<Rightarrow> int \<Rightarrow> graph" where
  "window_step k read g i =
     add_edge g (py_slice read i (i + k)) (py_slice read (i + 1) (i + k + 1))"

definition read_step :: "int \<Rightarrow> graph \<Rightarrow> node \<Rightarrow> graph" where
  "read_step k g read = foldl (window_step k read) g (py_range (int (length read) - k))"

definition build_debruijn_graph :: "node list \<Rightarrow> int \<Rightarrow> graph" where
  "build_debruijn_graph reads k = foldl (read_step k) empty_graph reads"

text \<open>\<open>sum(len(vs) for vs in adj.values())\<close>, as main.py counts the edges.\<close>

definition edge_count :: "graph \<Rightarrow> int" where
  "edge_count g = (\<Sum>e\<leftarrow>adj g. int (length (snd e)))"

definition degree_sum :: "(node \<times> int) list \<Rightarrow> int" where
  "degree_sum d = (\<Sum>e\<leftarrow>d. snd e)"

text \<open>The edge occurrences recorded in an adjacency dictionary, in stored order.\<close>

definition edges_of :: "(node \<times> node list) list \<Rightarrow> (node \<times> node) list" where
  "edges_of a = concat (map (\<lambda>e. map (Pair (fst e)) (snd e)) a)"

section \<open>The unitig extractor (unitig.py)\<close>

text \<open>
  The test of the list comprehension, lines 11 and 12, with Python's short-circuit
  evaluation: every \<open>indeg[v]\<close> and \<open>outdeg[v]\<close> that is evaluated may insert a key.
\<close>

definition is_anchor :: "graph \<Rightarrow> node \<Rightarrow> bool \<times> graph" where
  "is_anchor g v =
     (let g1 = g\<lparr>indeg := dd_touch (indeg g) 0 v\<rparr> in
      if dd_val (indeg g) 0 v \<noteq> 1 then (True, g1)
      else
        let g2 = g1\<lparr>outdeg := dd_touch (outdeg g1) 0 v\<rparr> in
        if dd_val (outdeg g1) 0 v \<noteq> 1 then (True, g2)
        else if dd_val (indeg g2) 0 v = 0
          then (dd_val (outdeg g2) 0 v = 0, g2\<lparr>outdeg := dd_touch (outdeg g2) 0 v\<rparr>)
          else (False, g2))"

fun select_anchors :: "node list \<Rightarrow> graph \<Rightarrow> node list \<times> graph" where
  "select_anchors [] g = ([], g)"
| "select_anchors (v # vs) g =
     (let r = is_anchor g v; s = select_anchors vs (snd r)
      in (if fst r then v # fst s else fst s, snd s))"

text \<open>
  The \<open>while\<close> loop, lines 24 to 28. It may run forever on a graph whose degree maps do
  not fit its adjacency map, so not returning is the value \<open>None\<close>. \<open>adj[u][0]\<close> on an
  empty list raises \<open>IndexError\<close>.
\<close>

type_synonym edge = "node \<times> node"

type_synonym walk_state = "graph \<times> edge set \<times> node list \<times> node"

definition walk_test :: "graph \<Rightarrow> node \<Rightarrow> bool \<times> graph" where
  "walk_test g u =
     (let g1 = g\<lparr>indeg := dd_touch (indeg g) 0 u\<rparr> in
      if dd_val (indeg g) 0 u = 1
      then (dd_val (outdeg g1) 0 u = 1, g1\<lparr>outdeg := dd_touch (outdeg g1) 0 u\<rparr>)
      else (False, g1))"

partial_function (option) walk ::
  "graph \<Rightarrow> edge set \<Rightarrow> node list \<Rightarrow> node \<Rightarrow> (py_error + walk_state) option" where
  "walk g visited_edges path u =
     (if fst (walk_test g u) then
        (case dd_val (adj (snd (walk_test g u))) [] u of
           [] \<Rightarrow> Some (Inl IndexError)
         | next_w # rest \<Rightarrow>
             walk ((snd (walk_test g u))\<lparr>adj := dd_touch (adj (snd (walk_test g u))) [] u\<rparr>)
               (insert (u, next_w) visited_edges) (path @ [u]) next_w)
      else Some (Inr (snd (walk_test g u), visited_edges, path, u)))"

declare walk.simps [code]

type_synonym loop_state = "graph \<times> edge set \<times> node list list"

text \<open>The loop over \<open>adj[v]\<close>, lines 16 to 31.\<close>

fun neighbor_loop :: "node \<Rightarrow> node list \<Rightarrow> loop_state \<Rightarrow> (py_error + loop_state) option" where
  "neighbor_loop v [] st = Some (Inr st)"
| "neighbor_loop v (w # ws) (g, visited_edges, unitigs) =
     (if (v, w) \<in> visited_edges then neighbor_loop v ws (g, visited_edges, unitigs)
      else
        (case walk g (insert (v, w) visited_edges) [v] w of
           None \<Rightarrow> None
         | Some (Inl e) \<Rightarrow> Some (Inl e)
         | Some (Inr (g', visited_edges', path, u)) \<Rightarrow>
             neighbor_loop v ws (g', visited_edges', unitigs @ [path @ [u]])))"

text \<open>The loop over the anchors, line 15.\<close>

fun anchor_loop :: "node list \<Rightarrow> loop_state \<Rightarrow> (py_error + loop_state) option" where
  "anchor_loop [] st = Some (Inr st)"
| "anchor_loop (v # vs) (g, visited_edges, unitigs) =
     (case neighbor_loop v (dd_val (adj g) [] v)
             (g\<lparr>adj := dd_touch (adj g) [] v\<rparr>, visited_edges, unitigs) of
        None \<Rightarrow> None
      | Some (Inl e) \<Rightarrow> Some (Inl e)
      | Some (Inr st) \<Rightarrow> anchor_loop vs st)"

text \<open>
  \<open>find_unitigs\<close> returns the unitigs together with the three dictionaries as the call
  leaves them, since reading a \<open>defaultdict\<close> can change it.
\<close>

definition find_unitigs :: "graph \<Rightarrow> (py_error + graph \<times> node list list) option" where
  "find_unitigs g =
     (let a = select_anchors (map fst (adj g)) g in
      case anchor_loop (fst a) (snd a, {}, []) of
        None \<Rightarrow> None
      | Some (Inl e) \<Rightarrow> Some (Inl e)
      | Some (Inr (g', visited_edges, unitigs)) \<Rightarrow> Some (Inr (g', unitigs)))"

text \<open>The consecutive (node, next-node) pairs of a path, and of a list of paths.\<close>

definition pairs :: "node list \<Rightarrow> edge list" where
  "pairs p = zip p (tl p)"

definition all_pairs :: "node list list \<Rightarrow> edge list" where
  "all_pairs ps = concat (map pairs ps)"

section \<open>Notions used to state the properties\<close>

text \<open>A node that the \<open>while\<close> loop walks through: indegree 1 and outdegree 1.\<close>

definition interior :: "graph \<Rightarrow> node \<Rightarrow> bool" where
  "interior g u \<longleftrightarrow> dd_val (indeg g) 0 u = 1 \<and> dd_val (outdeg g) 0 u = 1"

text \<open>
  The three dictionaries fit each other: keys are stored once, no adjacency list is
  empty, the indegree of a node counts the recorded edges into it, its outdegree is the
  length of its adjacency list, and both ends of every edge have both degrees.
\<close>

definition wf_graph :: "graph \<Rightarrow> bool" where
  "wf_graph g \<longleftrightarrow>
     distinct (map fst (adj g)) \<and>
     (\<forall>e\<in>set (adj g). snd e \<noteq> []) \<and>
     (\<forall>x. dd_val (indeg g) 0 x = int (length (filter (\<lambda>e. snd e = x) (edges_of (adj g))))) \<and>
     (\<forall>x. dd_val (outdeg g) 0 x = int (length (dd_val (adj g) [] x))) \<and>
     (\<forall>e\<in>set (edges_of (adj g)).
        fst e \<in> fst ` set (indeg g) \<and> fst e \<in> fst ` set (outdeg g) \<and>
        snd e \<in> fst ` set (indeg g) \<and> snd e \<in> fst ` set (outdeg g))"

text \<open>
  The state of the \<open>while\<close> loop: \<open>path\<close> starts at a node that is not interior,
  continues through interior nodes without repetition, and every step of \<open>path\<close> followed
  by the current node \<open>u\<close> is a recorded edge.
\<close>

definition chain :: "graph \<Rightarrow> node list \<Rightarrow> node \<Rightarrow> bool" where
  "chain g path u \<longleftrightarrow>
     path \<noteq> [] \<and> distinct path \<and> \<not> interior g (hd path) \<and>
     (\<forall>x\<in>set (tl path). interior g x) \<and>
     set (pairs (path @ [u])) \<subseteq> set (edges_of (adj g))"

definition unitig :: "graph \<Rightarrow> node list \<Rightarrow> bool" where
  "unitig g p \<longleftrightarrow> p \<noteq> [] \<and> chain g (butlast p) (last p) \<and> \<not> interior g (last p)"

text \<open>
  The edges that can be reached from an anchor: the edges that leave a key of the
  adjacency map that is not interior, and the edges that leave the end of a reached edge.
\<close>

inductive_set reach :: "graph \<Rightarrow> edge set" for g :: graph where
  start: "(v, w) \<in> set (edges_of (adj g)) \<Longrightarrow> v \<in> fst ` set (adj g) \<Longrightarrow> \<not> interior g v
            \<Longrightarrow> (v, w) \<in> reach g"
| step: "(q, a) \<in> reach g \<Longrightarrow> (a, b) \<in> set (edges_of (adj g)) \<Longrightarrow> (a, b) \<in> reach g"

text \<open>
  The state of the two \<open>for\<close> loops: the visited edges are the consecutive pairs of the
  unitigs found so far, no pair occurs twice, and every path found is a unitig.
\<close>

definition covered :: "graph \<Rightarrow> edge set \<Rightarrow> node list list \<Rightarrow> bool" where
  "covered g vis us \<longleftrightarrow>
     vis = set (all_pairs us) \<and> distinct (all_pairs us) \<and> (\<forall>p\<in>set us. unitig g p)"

text \<open>
  Reading a \<open>defaultdict\<close> can only add keys that hold the default. \<open>same_view g g'\<close>:
  the two graphs have the same adjacency map and every degree reads the same in both.
  \<open>has_keys g' g\<close>: the degree maps of \<open>g'\<close> hold every key of those of \<open>g\<close>.
\<close>

definition same_view :: "graph \<Rightarrow> graph \<Rightarrow> bool" where
  "same_view g g' \<longleftrightarrow>
     adj g' = adj g \<and>
     (\<forall>x. dd_val (indeg g') 0 x = dd_val (indeg g) 0 x) \<and>
     (\<forall>x. dd_val (outdeg g') 0 x = dd_val (outdeg g) 0 x)"

definition has_keys :: "graph \<Rightarrow> graph \<Rightarrow> bool" where
  "has_keys g' g \<longleftrightarrow>
     fst ` set (indeg g) \<subseteq> fst ` set (indeg g') \<and>
     fst ` set (outdeg g) \<subseteq> fst ` set (outdeg g')"


text \<open>
  A set of visited edges with nothing left to follow, but possibly from the current node
  \<open>cur\<close> of a running \<open>while\<close> loop: a visited edge that ends in another node which the
  loop test lets through is followed by the visited edge to that node's first neighbour.
\<close>

definition followed :: "graph \<Rightarrow> edge set \<Rightarrow> node option \<Rightarrow> bool" where
  "followed g vis cur \<longleftrightarrow>
     (\<forall>e\<in>vis. interior g (snd e) \<longrightarrow> cur = Some (snd e) \<or>
        (\<exists>n rest. dd_val (adj g) [] (snd e) = n # rest \<and> (snd e, n) \<in> vis))"

text \<open>
  What a run of the \<open>while\<close> loop that returns has done: it only read the dictionaries,
  it added edges to the visited ones and followed every edge it added, and a second run
  on dictionaries that already hold the inserted keys returns the same path and changes
  nothing.
\<close>

definition walk_post ::
  "graph \<Rightarrow> edge set \<Rightarrow> node list \<Rightarrow> node \<Rightarrow> py_error + walk_state \<Rightarrow> bool" where
  "walk_post g vis path u y \<longleftrightarrow>
     (\<forall>g' vis' path' u'. y = Inr (g', vis', path', u') \<longrightarrow>
        same_view g g' \<and> has_keys g' g \<and> vis \<subseteq> vis' \<and>
        (followed g vis (Some u) \<longrightarrow> followed g vis' None) \<and>
        (\<forall>g2. same_view g g2 \<and> has_keys g2 g' \<longrightarrow>
           walk g2 vis path u = Some (Inr (g2, vis', path', u'))))"

section \<open>Dictionary operations\<close>


lemma dd_val_put: "dd_val (dd_put k v d) dflt x = (if x = k then v else dd_val d dflt x)"
  by (simp add: dd_val_def dd_put_def update_conv')

lemma keys_put: "fst ` set (dd_put k v d) = insert k (fst ` set d)"
  by (simp add: dd_put_def dom_update)

lemma distinct_put: "distinct (map fst d) \<Longrightarrow> distinct (map fst (dd_put k v d))"
  by (simp add: dd_put_def distinct_update)

lemma dd_val_incr: "dd_val (dd_incr d k n) 0 x = dd_val d 0 x + (if x = k then n else 0)"
  by (simp add: dd_incr_def dd_val_put)

lemma keys_incr: "fst ` set (dd_incr d k n) = insert k (fst ` set d)"
  by (simp add: dd_incr_def keys_put)

lemma degree_sum_incr: "degree_sum (dd_incr d k n) = degree_sum d + n"
  by (induction d) (auto simp: degree_sum_def dd_incr_def dd_put_def dd_val_def)

lemma dd_touch_present: "k \<in> fst ` set d \<Longrightarrow> dd_touch d dflt k = d"
  by (simp add: dd_touch_def)

lemma mset_edges_put:
  "mset (edges_of (dd_put u (dd_val a [] u @ [v]) a)) = mset (edges_of a) + {#(u, v)#}"
  by (induction a) (auto simp: edges_of_def dd_put_def dd_val_def)

lemma set_edges_put:
  "set (edges_of (dd_put u (dd_val a [] u @ [v]) a)) = insert (u, v) (set (edges_of a))"
proof -
  have "set_mset (mset (edges_of (dd_put u (dd_val a [] u @ [v]) a))) =
        set_mset (mset (edges_of a) + {#(u, v)#})"
    by (simp only: mset_edges_put)
  then show ?thesis by simp
qed

lemma length_edges_of: "int (length (edges_of (adj g))) = edge_count g"
proof -
  have "int (length (edges_of a)) = (\<Sum>e\<leftarrow>a. int (length (snd e)))" for a
    by (induction a) (simp_all add: edges_of_def)
  then show ?thesis by (simp add: edge_count_def)
qed

lemma adj_add_edge: "adj (add_edge g u v) = dd_put u (dd_val (adj g) [] u @ [v]) (adj g)"
  and indeg_add_edge: "indeg (add_edge g u v) = dd_incr (dd_incr (indeg g) v 1) u 0"
  and outdeg_add_edge: "outdeg (add_edge g u v) = dd_incr (dd_incr (outdeg g) u 1) v 0"
  by (simp_all add: add_edge_def)

lemma edge_count_add_edge: "edge_count (add_edge g u v) = edge_count g + 1"
proof -
  have "size (mset (edges_of (adj (add_edge g u v)))) = size (mset (edges_of (adj g))) + 1"
    by (simp only: adj_add_edge mset_edges_put) simp
  then show ?thesis
    by (simp add: length_edges_of [symmetric])
qed

lemma build_induct:
  assumes "P empty_graph" and "\<And>g u v. P g \<Longrightarrow> P (add_edge g u v)"
  shows "P (build_debruijn_graph reads k)"
proof -
  have w: "P g \<Longrightarrow> P (foldl (window_step k r) g is)" for g r "is"
    by (induction "is" arbitrary: g) (simp_all add: window_step_def assms(2))
  have r: "P g \<Longrightarrow> P (foldl (read_step k) g rs)" for g rs
    by (induction rs arbitrary: g) (simp_all add: read_step_def w)
  show ?thesis
    unfolding build_debruijn_graph_def by (rule r) (rule assms(1))
qed

lemma edge_count_windows:
  "edge_count (foldl (window_step k r) g is) = edge_count g + int (length is)"
  by (induction "is" arbitrary: g) (simp_all add: window_step_def edge_count_add_edge)

lemma length_py_range: "int (length (py_range n)) = max 0 n"
  by (simp add: py_range_def)

lemma edge_count_read_step:
  "edge_count (read_step k g r) = edge_count g + max 0 (int (length r) - k)"
  by (simp only: read_step_def edge_count_windows length_py_range)

lemma edge_count_reads:
  "edge_count (foldl (read_step k) g rs) = edge_count g + (\<Sum>r\<leftarrow>rs. max 0 (int (length r) - k))"
  by (induction rs arbitrary: g) (simp_all add: edge_count_read_step)

lemma edge_count_empty: "edge_count empty_graph = 0"
  by (simp add: edge_count_def empty_graph_def)

section \<open>The builder keeps the dictionaries consistent\<close>


lemma set_put_subset: "set (dd_put k v d) \<subseteq> insert (k, v) (set d)"
  by (induction d) (auto simp: dd_put_def)

lemma dd_val_in_set: "k \<in> fst ` set d \<Longrightarrow> (k, dd_val d dflt k) \<in> set d"
  by (induction d) (auto simp: dd_val_def)

lemma dd_val_absent: "k \<notin> fst ` set d \<Longrightarrow> dd_val d dflt k = dflt"
  by (induction d) (auto simp: dd_val_def)

lemma length_filter_edges_put:
  "length (filter P (edges_of (dd_put u (dd_val a [] u @ [v]) a))) =
   length (filter P (edges_of a)) + (if P (u, v) then 1 else 0)"
  by (induction a) (auto simp: edges_of_def dd_put_def dd_val_def)

lemma wf_graph_empty: "wf_graph empty_graph"
  by (simp add: wf_graph_def empty_graph_def edges_of_def dd_val_def)

lemma wf_graph_add_edge:
  assumes "wf_graph g"
  shows "wf_graph (add_edge g u v)"
proof -
  let ?g = "add_edge g u v"
  have d: "distinct (map fst (adj ?g))"
    using assms by (simp add: wf_graph_def adj_add_edge distinct_put)
  have n: "\<forall>e\<in>set (adj ?g). snd e \<noteq> []"
    using assms set_put_subset [of u "dd_val (adj g) [] u @ [v]" "adj g"]
    by (auto simp: wf_graph_def adj_add_edge)
  have i: "\<forall>x. dd_val (indeg ?g) 0 x = int (length (filter (\<lambda>e. snd e = x) (edges_of (adj ?g))))"
    using assms
    by (simp add: wf_graph_def adj_add_edge indeg_add_edge dd_val_incr length_filter_edges_put)
  have o: "\<forall>x. dd_val (outdeg ?g) 0 x = int (length (dd_val (adj ?g) [] x))"
    using assms
    by (simp add: wf_graph_def adj_add_edge outdeg_add_edge dd_val_incr dd_val_put)
  have k: "\<forall>e\<in>set (edges_of (adj ?g)).
        fst e \<in> fst ` set (indeg ?g) \<and> fst e \<in> fst ` set (outdeg ?g) \<and>
        snd e \<in> fst ` set (indeg ?g) \<and> snd e \<in> fst ` set (outdeg ?g)"
    using assms
    by (simp add: wf_graph_def adj_add_edge indeg_add_edge outdeg_add_edge set_edges_put keys_incr)
  from d n i o k show ?thesis
    unfolding wf_graph_def by blast
qed

lemma wf_graph_build: "wf_graph (build_debruijn_graph reads k)"
  by (induction rule: build_induct) (simp_all add: wf_graph_empty wf_graph_add_edge)

section \<open>Paths, edges and consistent graphs\<close>

lemma pairs_Nil [simp]: "pairs [] = []"
  and pairs_single [simp]: "pairs [a] = []"
  and pairs_Cons2 [simp]: "pairs (a # b # r) = (a, b) # pairs (b # r)"
  by (simp_all add: pairs_def)

lemma pairs_snoc: "p \<noteq> [] \<Longrightarrow> pairs (p @ [u]) = pairs p @ [(last p, u)]"
  by (induction p rule: induct_list012) simp_all

lemma map_fst_pairs: "map fst (pairs p) = butlast p"
  by (induction p rule: induct_list012) simp_all

lemma map_snd_pairs: "map snd (pairs p) = tl p"
  by (induction p rule: induct_list012) simp_all

lemma pairs_succ: "(q, a) \<in> set (pairs p) \<Longrightarrow> a \<noteq> last p \<Longrightarrow> \<exists>b. (a, b) \<in> set (pairs p)"
proof (induction p rule: induct_list012)
  case (3 x y zs)
  show ?case
  proof (cases "(q, a) = (x, y)")
    case True
    with 3(4) obtain z zs' where "zs = z # zs'" by (cases zs) auto
    with True show ?thesis by auto
  next
    case False
    with 3 show ?thesis by auto
  qed
qed simp_all

lemma pairs_pred: "(a, b) \<in> set (pairs p) \<Longrightarrow> a \<noteq> hd p \<Longrightarrow> \<exists>q. (q, a) \<in> set (pairs p)"
proof (induction p rule: induct_list012)
  case (3 x y zs)
  show ?case
  proof (cases "a = y")
    case True
    then show ?thesis by auto
  next
    case False
    with 3 show ?thesis by auto
  qed
qed simp_all

lemma edges_of_key: "(x, y) \<in> set (edges_of a) \<Longrightarrow> x \<in> fst ` set a"
  by (induction a) (auto simp: edges_of_def)

lemma edges_of_Cons: "edges_of (e # a) = map (Pair (fst e)) (snd e) @ edges_of a"
  by (simp add: edges_of_def)

lemma edges_of_distinct:
  "distinct (map fst a) \<Longrightarrow> (x, y) \<in> set (edges_of a) \<longleftrightarrow> y \<in> set (dd_val a [] x)"
proof (induction a)
  case Nil
  show ?case by (simp add: edges_of_def dd_val_def)
next
  case (Cons e a)
  obtain k ws where e: "e = (k, ws)" by (cases e)
  from Cons.prems e have "k \<notin> fst ` set a" by simp
  then have k: "(k, y) \<notin> set (edges_of a)" using edges_of_key by blast
  from Cons.prems have "distinct (map fst a)" by simp
  then have ih: "(x, y) \<in> set (edges_of a) \<longleftrightarrow> y \<in> set (dd_val a [] x)" by (rule Cons.IH)
  show ?case
  proof (cases "x = k")
    case True
    with k show ?thesis unfolding e by (auto simp: edges_of_Cons dd_val_def)
  next
    case False
    have "dd_val (e # a) [] x = dd_val a [] x"
      using False by (simp add: e dd_val_def)
    moreover have "(x, y) \<in> set (edges_of (e # a)) \<longleftrightarrow> (x, y) \<in> set (edges_of a)"
      using False by (auto simp: e edges_of_Cons)
    ultimately show ?thesis using ih by simp
  qed
qed

lemma filter_one_unique:
  "length (filter P xs) = 1 \<Longrightarrow> a \<in> set xs \<Longrightarrow> b \<in> set xs \<Longrightarrow> P a \<Longrightarrow> P b \<Longrightarrow> a = b"
proof (induction xs)
  case (Cons x xs)
  show ?case
  proof (cases "P x")
    case True
    with Cons.prems(1) have "filter P xs = []" by simp
    then have "\<forall>y\<in>set xs. \<not> P y" by (simp add: filter_empty_conv)
    with Cons.prems show ?thesis by auto
  next
    case False
    with Cons show ?thesis by auto
  qed
qed simp

lemma wf_in_unique:
  assumes "wf_graph g" "dd_val (indeg g) 0 x = 1"
    and "(p, x) \<in> set (edges_of (adj g))" "(q, x) \<in> set (edges_of (adj g))"
  shows "p = q"
proof -
  from assms(1,2) have "length (filter (\<lambda>e. snd e = x) (edges_of (adj g))) = 1"
    by (simp add: wf_graph_def)
  from filter_one_unique [OF this assms(3,4)] show ?thesis by simp
qed

lemma wf_edge_iff:
  "wf_graph g \<Longrightarrow> (x, y) \<in> set (edges_of (adj g)) \<longleftrightarrow> y \<in> set (dd_val (adj g) [] x)"
  by (simp add: wf_graph_def edges_of_distinct)

lemma wf_interior_adj:
  assumes "wf_graph g" "interior g u"
  shows "\<exists>b. dd_val (adj g) [] u = [b]"
proof -
  from assms have "length (dd_val (adj g) [] u) = 1"
    by (simp add: wf_graph_def interior_def)
  then show ?thesis by (cases "dd_val (adj g) [] u") auto
qed

lemma wf_edge_keys:
  assumes "wf_graph g" "(x, y) \<in> set (edges_of (adj g))"
  shows "x \<in> fst ` set (indeg g)" "x \<in> fst ` set (outdeg g)"
    "y \<in> fst ` set (indeg g)" "y \<in> fst ` set (outdeg g)" "x \<in> fst ` set (adj g)"
proof -
  from assms(1) have "\<forall>e\<in>set (edges_of (adj g)).
        fst e \<in> fst ` set (indeg g) \<and> fst e \<in> fst ` set (outdeg g) \<and>
        snd e \<in> fst ` set (indeg g) \<and> snd e \<in> fst ` set (outdeg g)"
    by (simp add: wf_graph_def)
  from bspec [OF this assms(2)]
  show "x \<in> fst ` set (indeg g)" "x \<in> fst ` set (outdeg g)"
    "y \<in> fst ` set (indeg g)" "y \<in> fst ` set (outdeg g)" by simp_all
  from assms(2) show "x \<in> fst ` set (adj g)" by (rule edges_of_key)
qed

lemma wf_key_edge:
  assumes "wf_graph g" "x \<in> fst ` set (adj g)"
  shows "\<exists>y. (x, y) \<in> set (edges_of (adj g))"
proof -
  from assms(2) have "(x, dd_val (adj g) [] x) \<in> set (adj g)" by (rule dd_val_in_set)
  with assms(1) have "dd_val (adj g) [] x \<noteq> []" by (auto simp: wf_graph_def)
  then obtain y where "y \<in> set (dd_val (adj g) [] x)" by (cases "dd_val (adj g) [] x") auto
  with assms(1) show ?thesis by (auto simp: wf_edge_iff)
qed

lemma graph_update_same [simp]:
  "g\<lparr>adj := adj g\<rparr> = g" "g\<lparr>indeg := indeg g\<rparr> = g" "g\<lparr>outdeg := outdeg g\<rparr> = g"
  by simp_all

lemma walk_test_present:
  "u \<in> fst ` set (indeg g) \<Longrightarrow> u \<in> fst ` set (outdeg g) \<Longrightarrow> walk_test g u = (interior g u, g)"
  by (simp add: walk_test_def interior_def dd_touch_present)

lemma is_anchor_present:
  "v \<in> fst ` set (indeg g) \<Longrightarrow> v \<in> fst ` set (outdeg g) \<Longrightarrow> is_anchor g v = (\<not> interior g v, g)"
  by (simp add: is_anchor_def interior_def dd_touch_present)

lemma select_anchors_present:
  "set vs \<subseteq> fst ` set (indeg g) \<Longrightarrow> set vs \<subseteq> fst ` set (outdeg g) \<Longrightarrow>
   select_anchors vs g = (filter (\<lambda>v. \<not> interior g v) vs, g)"
  by (induction vs) (simp_all add: is_anchor_present)

lemma walk_unfold_wf:
  assumes "wf_graph g" "u \<in> fst ` set (indeg g)" "u \<in> fst ` set (outdeg g)"
  shows "walk g vis path u =
     (if interior g u
      then walk g (insert (u, hd (dd_val (adj g) [] u)) vis) (path @ [u]) (hd (dd_val (adj g) [] u))
      else Some (Inr (g, vis, path, u)))"
proof (cases "interior g u")
  case True
  from wf_interior_adj [OF assms(1) True] obtain b where b: "dd_val (adj g) [] u = [b]" ..
  then have "u \<in> fst ` set (adj g)"
    using dd_val_absent [of u "adj g" "[]"] by auto
  then have "dd_touch (adj g) [] u = adj g" by (rule dd_touch_present)
  with True b show ?thesis
    by (subst walk.simps) (simp add: walk_test_present assms)
next
  case False
  then show ?thesis
    by (subst walk.simps) (simp add: walk_test_present assms)
qed

section \<open>The while loop returns on a consistent graph\<close>

lemma pairs_snoc2: "pairs (p @ [u, b]) = pairs (p @ [u]) @ [(u, b)]"
  using pairs_snoc [of "p @ [u]" b] by simp

lemma chain_fresh:
  assumes wf: "wf_graph g" and ch: "chain g path u" and int: "interior g u"
  shows "u \<notin> set path"
proof
  assume u: "u \<in> set path"
  from ch have ne: "path \<noteq> []" and dist: "distinct path" and hd: "\<not> interior g (hd path)"
    and sub: "set (pairs (path @ [u])) \<subseteq> set (edges_of (adj g))"
    by (simp_all add: chain_def)
  from u obtain ys zs where split: "path = ys @ u # zs"
    by (auto simp: in_set_conv_decomp)
  from hd int split have "ys \<noteq> []" by (cases ys) auto
  then obtain ys' p where ys: "ys = ys' @ [p]"
    by (cases ys rule: rev_cases) auto
  have path: "path = ys' @ p # u # zs" by (simp add: split ys)
  have "(p, u) \<in> set (pairs (path @ [u]))"
    unfolding path by (induction ys' rule: induct_list012) simp_all
  with sub have e1: "(p, u) \<in> set (edges_of (adj g))" by blast
  have "(last path, u) \<in> set (pairs (path @ [u]))"
    using ne by (simp add: pairs_snoc)
  with sub have e2: "(last path, u) \<in> set (edges_of (adj g))" by blast
  from int have "dd_val (indeg g) 0 u = 1" by (simp add: interior_def)
  from wf_in_unique [OF wf this e1 e2] have "p = last path" .
  also have "last path = last (u # zs)" by (simp add: path)
  finally have "p \<in> set (u # zs)" using last_in_set [of "u # zs"] by simp
  with dist show False by (simp add: path)
qed

lemma chain_extend:
  assumes wf: "wf_graph g" and ch: "chain g path u" and int: "interior g u"
  shows "chain g (path @ [u]) (hd (dd_val (adj g) [] u))"
proof -
  from wf_interior_adj [OF wf int] obtain b where b: "dd_val (adj g) [] u = [b]" ..
  with wf have "(u, b) \<in> set (edges_of (adj g))" by (simp add: wf_edge_iff)
  moreover from chain_fresh [OF assms] have "u \<notin> set path" .
  moreover from ch have "path \<noteq> []" by (simp add: chain_def)
  ultimately show ?thesis
    using ch int b by (simp add: chain_def pairs_snoc2)
qed

lemma chain_keys:
  assumes "wf_graph g" "chain g path u"
  shows "u \<in> fst ` set (indeg g)" "u \<in> fst ` set (outdeg g)"
proof -
  from assms(2) have "(last path, u) \<in> set (edges_of (adj g))"
    by (auto simp: chain_def pairs_snoc)
  from wf_edge_keys(3,4) [OF assms(1) this]
  show "u \<in> fst ` set (indeg g)" "u \<in> fst ` set (outdeg g)" .
qed

lemma walk_total:
  assumes wf: "wf_graph g"
  shows "chain g path u \<Longrightarrow> set (pairs (path @ [u])) \<subseteq> vis \<Longrightarrow>
    \<exists>path' u'. walk g vis path u = Some (Inr (g, vis \<union> set (pairs (path' @ [u'])), path', u')) \<and>
       chain g path' u' \<and> \<not> interior g u' \<and> (\<exists>ext. path' @ [u'] = path @ u # ext)"
proof (induction "card (fst ` set (indeg g) - set path)" arbitrary: path u vis rule: less_induct)
  case less
  note ch = \<open>chain g path u\<close>
  note keys = chain_keys [OF wf ch]
  show ?case
  proof (cases "interior g u")
    case False
    from less.prems(2) have "vis \<union> set (pairs (path @ [u])) = vis" by auto
    with False ch show ?thesis
      by (subst walk_unfold_wf [OF wf keys]) auto
  next
    case True
    let ?n = "hd (dd_val (adj g) [] u)"
    have ch': "chain g (path @ [u]) ?n" by (rule chain_extend [OF wf ch True])
    have fresh: "u \<notin> set path" by (rule chain_fresh [OF wf ch True])
    have "fst ` set (indeg g) - set (path @ [u]) \<subset> fst ` set (indeg g) - set path"
      using fresh keys(1) by auto
    then have m: "card (fst ` set (indeg g) - set (path @ [u])) < card (fst ` set (indeg g) - set path)"
      by (intro psubset_card_mono) simp_all
    from ch have ne: "path \<noteq> []" by (simp add: chain_def)
    have sub: "set (pairs ((path @ [u]) @ [?n])) \<subseteq> insert (u, ?n) vis"
      using less.prems(2) by (auto simp add: pairs_snoc2)
    from less.hyps [OF m ch' sub] obtain path' u' where
      w: "walk g (insert (u, ?n) vis) (path @ [u]) ?n =
            Some (Inr (g, insert (u, ?n) vis \<union> set (pairs (path' @ [u'])), path', u'))"
      and c: "chain g path' u'" and i: "\<not> interior g u'"
      and s: "\<exists>ext. path' @ [u'] = (path @ [u]) @ ?n # ext"
      by blast
    from s obtain ext where ext: "path' @ [u'] = path @ u # ?n # ext" by auto
    have "(u, ?n) \<in> set (pairs (path' @ [u']))"
      unfolding ext by (induction path rule: induct_list012) simp_all
    then have eq: "insert (u, ?n) vis \<union> set (pairs (path' @ [u'])) = vis \<union> set (pairs (path' @ [u']))"
      by auto
    show ?thesis
      using True w c i ext unfolding eq
      by (subst walk_unfold_wf [OF wf keys]) auto
  qed
qed

section \<open>Unitigs and visited edges\<close>

lemma pairs_append_subset: "set (pairs xs) \<subseteq> set (pairs (xs @ ys))"
proof (induction xs rule: induct_list012)
  case (3 x y zs)
  then show ?case by auto
qed simp_all

lemma all_pairs_snoc: "all_pairs (us @ [p]) = all_pairs us @ pairs p"
  by (simp add: all_pairs_def)

lemma all_pairs_Nil: "all_pairs [] = []"
  by (simp add: all_pairs_def)

lemma in_all_pairs: "e \<in> set (all_pairs us) \<longleftrightarrow> (\<exists>p\<in>set us. e \<in> set (pairs p))"
  by (auto simp: all_pairs_def)

lemma pairs_source: "(a, b) \<in> set (pairs p) \<Longrightarrow> a \<in> set (butlast p)"
  using map_fst_pairs [of p] by (metis fst_conv image_eqI list.set_map)

lemma pairs_target: "(a, b) \<in> set (pairs p) \<Longrightarrow> b \<in> set (tl p)"
  using map_snd_pairs [of p] by (metis snd_conv image_eqI list.set_map)

lemma chain_source:
  assumes "chain g path u" "(a, b) \<in> set (pairs (path @ [u]))"
  shows "a = hd path \<or> interior g a"
proof -
  from pairs_source [OF assms(2)] have "a \<in> set path" by simp
  moreover from assms(1) have "path \<noteq> []" "\<forall>x\<in>set (tl path). interior g x"
    by (simp_all add: chain_def)
  ultimately show ?thesis by (cases path) auto
qed

lemma chain_distinct_pairs: "chain g path u \<Longrightarrow> distinct (pairs (path @ [u]))"
proof -
  assume "chain g path u"
  then have "distinct (map fst (pairs (path @ [u])))"
    by (simp add: map_fst_pairs chain_def)
  then show ?thesis by (rule distinct_map [THEN iffD1, THEN conjunct1])
qed

lemma unitig_snoc: "chain g path u \<Longrightarrow> \<not> interior g u \<Longrightarrow> unitig g (path @ [u])"
  by (simp add: unitig_def)

lemma unitig_chain: "unitig g p \<Longrightarrow> \<exists>path u. p = path @ [u] \<and> chain g path u \<and> \<not> interior g u"
  unfolding unitig_def by (metis append_butlast_last_id)

lemma unitig_pred:
  assumes "unitig g p" "(a, b) \<in> set (pairs p)" "interior g a"
  shows "\<exists>q. (q, a) \<in> set (pairs p)"
proof -
  from unitig_chain [OF assms(1)] obtain path u where
    p: "p = path @ [u]" and ch: "chain g path u" by blast
  from ch have "path \<noteq> []" "\<not> interior g (hd path)" by (simp_all add: chain_def)
  with assms(3) p have "a \<noteq> hd p" by auto
  with assms(2) show ?thesis by (rule pairs_pred)
qed

lemma unitig_succ:
  assumes "unitig g p" "(q, a) \<in> set (pairs p)" "interior g a"
  shows "\<exists>b. (a, b) \<in> set (pairs p)"
proof -
  from unitig_chain [OF assms(1)] obtain path u where
    p: "p = path @ [u]" and "\<not> interior g u" by blast
  with assms(3) have "a \<noteq> last p" by auto
  with assms(2) show ?thesis by (rule pairs_succ)
qed

lemma unitig_edges: "unitig g p \<Longrightarrow> set (pairs p) \<subseteq> set (edges_of (adj g))"
  using unitig_chain [of g p] by (auto simp: chain_def)

lemma covered_edges: "covered g vis us \<Longrightarrow> vis \<subseteq> set (edges_of (adj g))"
  using unitig_edges [of g] by (fastforce simp: covered_def in_all_pairs)

lemma chain_butlast:
  assumes "chain g (ys @ [x]) u" "ys \<noteq> []"
  shows "chain g ys x"
proof -
  from assms(2) obtain y ys' where ys: "ys = y # ys'" by (cases ys) auto
  have "set (pairs (ys @ [x])) \<subseteq> set (pairs ((ys @ [x]) @ [u]))"
    by (rule pairs_append_subset)
  with assms(1) show ?thesis
    unfolding chain_def ys by auto
qed

lemma fresh_pairs:
  assumes wf: "wf_graph g" and cov: "covered g vis us"
  shows "chain g path u \<Longrightarrow> (hd (path @ [u]), hd (tl (path @ [u]))) \<notin> vis \<Longrightarrow>
    set (pairs (path @ [u])) \<inter> vis = {}"
proof (induction path arbitrary: u rule: rev_induct)
  case Nil
  then show ?case by (simp add: chain_def)
next
  case (snoc x ys)
  show ?case
  proof (cases "ys = []")
    case True
    with snoc.prems(2) show ?thesis by simp
  next
    case False
    then obtain y ys' where ys: "ys = y # ys'" by (cases ys) auto
    have ch: "chain g ys x" by (rule chain_butlast [OF snoc.prems(1) False])
    have "(hd (ys @ [x]), hd (tl (ys @ [x]))) = (hd ((ys @ [x]) @ [u]), hd (tl ((ys @ [x]) @ [u])))"
      unfolding ys by (cases ys') simp_all
    with snoc.prems(2) have "(hd (ys @ [x]), hd (tl (ys @ [x]))) \<notin> vis" by simp
    from snoc.IH [OF ch this] have ih: "set (pairs (ys @ [x])) \<inter> vis = {}" .
    have last: "(last ys, x) \<in> set (pairs (ys @ [x]))"
      using False by (simp add: pairs_snoc)
    have new: "(x, u) \<notin> vis"
    proof
      assume "(x, u) \<in> vis"
      with cov obtain p where p: "p \<in> set us" "(x, u) \<in> set (pairs p)"
        by (auto simp: covered_def in_all_pairs)
      from cov p(1) have up: "unitig g p" by (simp add: covered_def)
      from snoc.prems(1) have ix: "interior g x"
        unfolding ys chain_def by simp
      from unitig_pred [OF up p(2) ix] obtain q where q: "(q, x) \<in> set (pairs p)" ..
      with cov p(1) have qv: "(q, x) \<in> vis" by (auto simp: covered_def in_all_pairs)
      with covered_edges [OF cov] have e1: "(q, x) \<in> set (edges_of (adj g))" by blast
      from ch last have e2: "(last ys, x) \<in> set (edges_of (adj g))"
        by (auto simp: chain_def)
      from ix have "dd_val (indeg g) 0 x = 1" by (simp add: interior_def)
      from wf_in_unique [OF wf this e1 e2] have "q = last ys" .
      with qv last ih show False by auto
    qed
    from ih new show ?thesis
      by (simp add: pairs_snoc2)
  qed
qed

section \<open>The extractor on a consistent graph\<close>

lemma covered_step:
  assumes wf: "wf_graph g" and cov: "covered g vis us"
    and ch: "chain g path u" and ni: "\<not> interior g u"
    and hd: "(hd (path @ [u]), hd (tl (path @ [u]))) \<notin> vis"
  shows "covered g (vis \<union> set (pairs (path @ [u]))) (us @ [path @ [u]])"
proof -
  from fresh_pairs [OF wf cov ch hd] have "set (pairs (path @ [u])) \<inter> vis = {}" .
  with cov have "set (all_pairs us) \<inter> set (pairs (path @ [u])) = {}"
    by (auto simp: covered_def)
  with cov chain_distinct_pairs [OF ch] unitig_snoc [OF ch ni] show ?thesis
    by (auto simp: covered_def all_pairs_snoc)
qed

lemma neighbor_loop_wf:
  assumes wf: "wf_graph g" and v: "\<not> interior g v"
  shows "covered g vis us \<Longrightarrow> \<forall>w\<in>set ws. (v, w) \<in> set (edges_of (adj g)) \<Longrightarrow>
    \<exists>vis' us'. neighbor_loop v ws (g, vis, us) = Some (Inr (g, vis', us')) \<and>
       covered g vis' us' \<and> vis \<subseteq> vis' \<and> (\<forall>w\<in>set ws. (v, w) \<in> vis')"
proof (induction ws arbitrary: vis us)
  case Nil
  then show ?case by simp
next
  case (Cons w ws)
  from Cons.prems(2) have e: "(v, w) \<in> set (edges_of (adj g))"
    and es: "\<forall>w\<in>set ws. (v, w) \<in> set (edges_of (adj g))" by simp_all
  show ?case
  proof (cases "(v, w) \<in> vis")
    case True
    from Cons.IH [OF Cons.prems(1) es] obtain vis' us' where
      "neighbor_loop v ws (g, vis, us) = Some (Inr (g, vis', us'))"
      "covered g vis' us'" "vis \<subseteq> vis'" "\<forall>w\<in>set ws. (v, w) \<in> vis'" by blast
    with True show ?thesis by auto
  next
    case False
    have ch: "chain g [v] w" using v e by (simp add: chain_def)
    have "set (pairs ([v] @ [w])) \<subseteq> insert (v, w) vis" by simp
    from walk_total [OF wf ch this] obtain path' u' ext where
      w: "walk g (insert (v, w) vis) [v] w =
            Some (Inr (g, insert (v, w) vis \<union> set (pairs (path' @ [u'])), path', u'))"
      and ch': "chain g path' u'" and ni: "\<not> interior g u'"
      and ext: "path' @ [u'] = [v] @ w # ext" by blast
    have first: "(v, w) \<in> set (pairs (path' @ [u']))" unfolding ext by simp
    then have eq: "insert (v, w) vis \<union> set (pairs (path' @ [u'])) = vis \<union> set (pairs (path' @ [u']))"
      by auto
    have "(hd (path' @ [u']), hd (tl (path' @ [u']))) \<notin> vis"
      unfolding ext using False by simp
    from covered_step [OF wf Cons.prems(1) ch' ni this]
    have cov': "covered g (vis \<union> set (pairs (path' @ [u']))) (us @ [path' @ [u']])" .
    from Cons.IH [OF cov' es] obtain vis' us' where
      n: "neighbor_loop v ws (g, vis \<union> set (pairs (path' @ [u'])), us @ [path' @ [u']]) =
            Some (Inr (g, vis', us'))"
      and c: "covered g vis' us'" and s: "vis \<union> set (pairs (path' @ [u'])) \<subseteq> vis'"
      and a: "\<forall>w\<in>set ws. (v, w) \<in> vis'" by blast
    from s first have "(v, w) \<in> vis'" "vis \<subseteq> vis'" by auto
    with False w n c a show ?thesis
      unfolding eq by auto
  qed
qed

lemma anchor_loop_wf:
  assumes wf: "wf_graph g"
  shows "covered g vis us \<Longrightarrow> \<forall>v\<in>set vs. v \<in> fst ` set (adj g) \<and> \<not> interior g v \<Longrightarrow>
    \<exists>vis' us'. anchor_loop vs (g, vis, us) = Some (Inr (g, vis', us')) \<and>
       covered g vis' us' \<and> vis \<subseteq> vis' \<and>
       (\<forall>v\<in>set vs. \<forall>w. (v, w) \<in> set (edges_of (adj g)) \<longrightarrow> (v, w) \<in> vis')"
proof (induction vs arbitrary: vis us)
  case Nil
  then show ?case by simp
next
  case (Cons v vs)
  from Cons.prems(2) have k: "v \<in> fst ` set (adj g)" and ni: "\<not> interior g v"
    and rest: "\<forall>v\<in>set vs. v \<in> fst ` set (adj g) \<and> \<not> interior g v" by simp_all
  have t: "g\<lparr>adj := dd_touch (adj g) [] v\<rparr> = g"
    using k by (simp add: dd_touch_present)
  have "\<forall>w\<in>set (dd_val (adj g) [] v). (v, w) \<in> set (edges_of (adj g))"
    using wf by (simp add: wf_edge_iff)
  from neighbor_loop_wf [OF wf ni Cons.prems(1) this] obtain vis1 us1 where
    n: "neighbor_loop v (dd_val (adj g) [] v) (g, vis, us) = Some (Inr (g, vis1, us1))"
    and c1: "covered g vis1 us1" and s1: "vis \<subseteq> vis1"
    and a1: "\<forall>w\<in>set (dd_val (adj g) [] v). (v, w) \<in> vis1" by blast
  from Cons.IH [OF c1 rest] obtain vis' us' where
    l: "anchor_loop vs (g, vis1, us1) = Some (Inr (g, vis', us'))"
    and c: "covered g vis' us'" and s: "vis1 \<subseteq> vis'"
    and a: "\<forall>v\<in>set vs. \<forall>w. (v, w) \<in> set (edges_of (adj g)) \<longrightarrow> (v, w) \<in> vis'" by blast
  have "\<forall>w. (v, w) \<in> set (edges_of (adj g)) \<longrightarrow> (v, w) \<in> vis'"
    using a1 s wf by (auto simp: wf_edge_iff)
  with n l c s s1 a show ?case
    by (auto simp: t)
qed

lemma covered_empty: "covered g {} []"
  by (simp add: covered_def all_pairs_def)

lemma wf_adj_keys:
  assumes "wf_graph g"
  shows "fst ` set (adj g) \<subseteq> fst ` set (indeg g)" "fst ` set (adj g) \<subseteq> fst ` set (outdeg g)"
  using wf_key_edge [OF assms] wf_edge_keys(1,2) [OF assms] by blast+

lemma find_unitigs_wf:
  assumes wf: "wf_graph g"
  shows "\<exists>us. find_unitigs g = Some (Inr (g, us)) \<and> covered g (set (all_pairs us)) us \<and>
     (\<forall>v w. (v, w) \<in> set (edges_of (adj g)) \<longrightarrow> \<not> interior g v \<longrightarrow> (v, w) \<in> set (all_pairs us))"
proof -
  let ?as = "filter (\<lambda>v. \<not> interior g v) (map fst (adj g))"
  have sel: "select_anchors (map fst (adj g)) g = (?as, g)"
    using wf_adj_keys [OF wf] by (intro select_anchors_present) simp_all
  have "\<forall>v\<in>set ?as. v \<in> fst ` set (adj g) \<and> \<not> interior g v" by simp
  from anchor_loop_wf [OF wf covered_empty this] obtain vis us where
    l: "anchor_loop ?as (g, {}, []) = Some (Inr (g, vis, us))"
    and c: "covered g vis us"
    and a: "\<forall>v\<in>set ?as. \<forall>w. (v, w) \<in> set (edges_of (adj g)) \<longrightarrow> (v, w) \<in> vis" by blast
  from c have vis: "vis = set (all_pairs us)" by (simp add: covered_def)
  have "(v, w) \<in> set (all_pairs us)"
    if "(v, w) \<in> set (edges_of (adj g))" "\<not> interior g v" for v w
  proof -
    from that(1) have "v \<in> fst ` set (adj g)" by (rule edges_of_key)
    with that a show ?thesis unfolding vis by simp
  qed
  with l c show ?thesis
    unfolding vis by (simp add: find_unitigs_def sel)
qed

lemma unitig_reach:
  assumes wf: "wf_graph g"
  shows "chain g path u \<Longrightarrow> set (pairs (path @ [u])) \<subseteq> reach g"
proof (induction path arbitrary: u rule: rev_induct)
  case Nil
  then show ?case by (simp add: chain_def)
next
  case (snoc x ys)
  from snoc.prems have e: "(x, u) \<in> set (edges_of (adj g))"
    by (simp add: chain_def pairs_snoc2)
  show ?case
  proof (cases "ys = []")
    case True
    with snoc.prems have "\<not> interior g x" by (simp add: chain_def)
    with e edges_of_key [OF e] have "(x, u) \<in> reach g" by (intro reach.start)
    with True show ?thesis by simp
  next
    case False
    have "chain g ys x" by (rule chain_butlast [OF snoc.prems False])
    then have ih: "set (pairs (ys @ [x])) \<subseteq> reach g" by (rule snoc.IH)
    have "(last ys, x) \<in> set (pairs (ys @ [x]))"
      using False by (simp add: pairs_snoc)
    with ih have "(last ys, x) \<in> reach g" by blast
    then have "(x, u) \<in> reach g" using e by (rule reach.step)
    with ih show ?thesis by (simp add: pairs_snoc2)
  qed
qed

lemma covered_reach:
  assumes wf: "wf_graph g" and cov: "covered g vis us"
    and anchors: "\<forall>v w. (v, w) \<in> set (edges_of (adj g)) \<longrightarrow> \<not> interior g v \<longrightarrow> (v, w) \<in> vis"
  shows "vis = reach g"
proof
  show "vis \<subseteq> reach g"
  proof
    fix e assume "e \<in> vis"
    with cov obtain p where p: "p \<in> set us" "e \<in> set (pairs p)"
      by (auto simp: covered_def in_all_pairs)
    with cov have "unitig g p" by (simp add: covered_def)
    from unitig_chain [OF this] obtain path u where "p = path @ [u]" "chain g path u" by blast
    with unitig_reach [OF wf this(2)] p(2) show "e \<in> reach g" by blast
  qed
  show "reach g \<subseteq> vis"
  proof
    fix e assume "e \<in> reach g"
    moreover obtain x y where "e = (x, y)" by (cases e)
    ultimately have "(x, y) \<in> reach g" by simp
    then have "(x, y) \<in> vis"
    proof (induction rule: reach.induct)
      case (start v w)
      with anchors show ?case by blast
    next
      case (step q a b)
      show ?case
      proof (cases "interior g a")
        case False
        with anchors step.hyps(2) show ?thesis by blast
      next
        case True
        from step.IH cov obtain p where p: "p \<in> set us" "(q, a) \<in> set (pairs p)"
          by (auto simp: covered_def in_all_pairs)
        with cov have up: "unitig g p" by (simp add: covered_def)
        from unitig_succ [OF up p(2) True] obtain b' where b': "(a, b') \<in> set (pairs p)" ..
        with unitig_edges [OF up] have "(a, b') \<in> set (edges_of (adj g))" by blast
        moreover from wf_interior_adj [OF wf True] obtain c where "dd_val (adj g) [] a = [c]" ..
        ultimately have "b' = b" using step.hyps(2) wf by (simp add: wf_edge_iff)
        with b' p(1) cov show ?thesis by (auto simp: covered_def in_all_pairs)
      qed
    qed
    with \<open>e = (x, y)\<close> show "e \<in> vis" by simp
  qed
qed

lemma reach_edges: "reach g \<subseteq> set (edges_of (adj g))"
proof
  fix e assume "e \<in> reach g"
  moreover obtain x y where "e = (x, y)" by (cases e)
  ultimately have "(x, y) \<in> reach g" by simp
  then have "(x, y) \<in> set (edges_of (adj g))" by (induction rule: reach.induct)
  with \<open>e = (x, y)\<close> show "e \<in> set (edges_of (adj g))" by simp
qed

lemma dd_val_nondefault: "dd_val d dflt k \<noteq> dflt \<Longrightarrow> k \<in> fst ` set d"
  using dd_val_absent [of k d dflt] by auto

lemma dd_val_map_of: "k \<in> fst ` set d \<Longrightarrow> map_of d k = Some (dd_val d dflt k)"
  by (induction d) (auto simp: dd_val_def)

lemma read_step_short: "int (length r) \<le> k \<Longrightarrow> read_step k g r = g"
  by (simp add: read_step_def py_range_def)

lemma reads_short: "\<forall>r\<in>set rs. int (length r) \<le> k \<Longrightarrow> foldl (read_step k) g rs = g"
  by (induction rs arbitrary: g) (simp_all add: read_step_short)

section \<open>Reading the dictionaries changes no value\<close>

lemma dd_val_touch: "dd_val (dd_touch d dflt k) dflt x = dd_val d dflt x"
  by (auto simp: dd_val_def dd_touch_def map_of_append split: option.splits if_splits
      dest: map_of_SomeD weak_map_of_SomeI)

lemma keys_touch: "fst ` set (dd_touch d dflt k) = insert k (fst ` set d)"
  by (auto simp: dd_touch_def)

lemma same_view_refl: "same_view g g"
  by (simp add: same_view_def)

lemma same_view_trans: "same_view g g1 \<Longrightarrow> same_view g1 g2 \<Longrightarrow> same_view g g2"
  by (simp add: same_view_def)

lemma same_view_sym: "same_view g g1 \<Longrightarrow> same_view g1 g"
  by (simp add: same_view_def)

lemma has_keys_refl: "has_keys g g"
  by (simp add: has_keys_def)

lemma has_keys_trans: "has_keys g2 g1 \<Longrightarrow> has_keys g1 g \<Longrightarrow> has_keys g2 g"
  unfolding has_keys_def by blast

lemma interior_same_view: "same_view g g' \<Longrightarrow> interior g' u = interior g u"
  by (simp add: same_view_def interior_def)

lemma walk_test_fst: "fst (walk_test g u) = interior g u"
  by (simp add: walk_test_def Let_def interior_def)

lemma walk_test_view: "same_view g (snd (walk_test g u))"
  by (simp add: walk_test_def Let_def same_view_def dd_val_touch)

lemma walk_test_keys: "has_keys (snd (walk_test g u)) g"
  by (auto simp: walk_test_def Let_def has_keys_def keys_touch)

lemma walk_test_touched:
  "u \<in> fst ` set (indeg (snd (walk_test g u)))"
  "dd_val (indeg g) 0 u = 1 \<Longrightarrow> u \<in> fst ` set (outdeg (snd (walk_test g u)))"
  by (simp_all add: walk_test_def Let_def keys_touch)

lemma walk_test_stable:
  assumes "u \<in> fst ` set (indeg g)" "dd_val (indeg g) 0 u = 1 \<longrightarrow> u \<in> fst ` set (outdeg g)"
  shows "walk_test g u = (interior g u, g)"
  using assms by (auto simp: walk_test_def Let_def interior_def dd_touch_present)

lemma is_anchor_fst: "fst (is_anchor g v) = (\<not> interior g v)"
  by (auto simp: is_anchor_def Let_def interior_def dd_val_touch)

lemma is_anchor_view: "same_view g (snd (is_anchor g v))"
  by (simp add: is_anchor_def Let_def same_view_def dd_val_touch)

lemma is_anchor_keys: "has_keys (snd (is_anchor g v)) g"
  by (auto simp: is_anchor_def Let_def has_keys_def keys_touch)

lemma is_anchor_touched:
  "v \<in> fst ` set (indeg (snd (is_anchor g v)))"
  "dd_val (indeg g) 0 v = 1 \<Longrightarrow> v \<in> fst ` set (outdeg (snd (is_anchor g v)))"
  by (auto simp: is_anchor_def Let_def keys_touch dd_val_touch)

lemma is_anchor_stable:
  assumes "v \<in> fst ` set (indeg g)" "dd_val (indeg g) 0 v = 1 \<longrightarrow> v \<in> fst ` set (outdeg g)"
  shows "is_anchor g v = (\<not> interior g v, g)"
  using assms by (auto simp: is_anchor_def Let_def interior_def dd_touch_present)

section \<open>A run of the while loop that returns\<close>

lemma followed_same_view: "same_view g g' \<Longrightarrow> followed g' vis c = followed g vis c"
  by (simp add: followed_def same_view_def interior_def)

lemma followed_stop: "followed g vis (Some u) \<Longrightarrow> \<not> interior g u \<Longrightarrow> followed g vis None"
  unfolding followed_def by fastforce

lemma followed_step:
  assumes "followed g vis (Some u)" "dd_val (adj g) [] u = n # rest"
  shows "followed g (insert (u, n) vis) (Some n)"
  unfolding followed_def
proof
  fix e assume e: "e \<in> insert (u, n) vis"
  show "interior g (snd e) \<longrightarrow> Some n = Some (snd e) \<or>
        (\<exists>m rest. dd_val (adj g) [] (snd e) = m # rest \<and> (snd e, m) \<in> insert (u, n) vis)"
  proof (cases "e = (u, n)")
    case True
    then show ?thesis by simp
  next
    case False
    with e have "e \<in> vis" by simp
    with assms(1) have "interior g (snd e) \<longrightarrow> Some u = Some (snd e) \<or>
        (\<exists>m rest. dd_val (adj g) [] (snd e) = m # rest \<and> (snd e, m) \<in> vis)"
      unfolding followed_def by blast
    with assms(2) show ?thesis by auto
  qed
qed

lemma followed_start: "followed g vis None \<Longrightarrow> followed g (insert (v, w) vis) (Some w)"
  unfolding followed_def by fastforce

lemma walk_partial:
  assumes "walk g vis path u = Some y"
  shows "walk_post g vis path u y"
proof (rule walk.raw_induct [where P = walk_post, OF _ assms])
  fix walk' g vis path u y
  assume ih: "\<And>g vis path u y. walk' g vis path u = Some y \<Longrightarrow> walk_post g vis path u y"
    and eq: "(if fst (walk_test g u) then
        (case dd_val (adj (snd (walk_test g u))) [] u of
           [] \<Rightarrow> Some (Inl IndexError)
         | next_w # rest \<Rightarrow>
             walk' ((snd (walk_test g u))\<lparr>adj := dd_touch (adj (snd (walk_test g u))) [] u\<rparr>)
               (insert (u, next_w) vis) (path @ [u]) next_w)
      else Some (Inr (snd (walk_test g u), vis, path, u))) = Some y"
  let ?gA = "snd (walk_test g u)"
  have vA: "same_view g ?gA" by (rule walk_test_view)
  have kA: "has_keys ?gA g" by (rule walk_test_keys)
  show "walk_post g vis path u y"
  proof (cases "interior g u")
    case False
    with eq have y: "y = Inr (?gA, vis, path, u)" by (simp add: walk_test_fst)
    have "walk g2 vis path u = Some (Inr (g2, vis, path, u))"
      if v2: "same_view g g2" and k2: "has_keys g2 ?gA" for g2
    proof -
      from k2 walk_test_touched(1) [of u g] have "u \<in> fst ` set (indeg g2)"
        by (auto simp: has_keys_def)
      moreover have "dd_val (indeg g2) 0 u = 1 \<longrightarrow> u \<in> fst ` set (outdeg g2)"
        using k2 v2 walk_test_touched(2) [of g u] by (auto simp: has_keys_def same_view_def)
      ultimately have "walk_test g2 u = (interior g2 u, g2)" by (rule walk_test_stable)
      with False interior_same_view [OF v2, of u] show ?thesis
        by (subst walk.simps) simp
    qed
    with y vA kA False show ?thesis
      unfolding walk_post_def by (auto intro: followed_stop)
  next
    case True
    show ?thesis
    proof (cases "dd_val (adj g) [] u")
      case Nil
      with True eq vA have "y = Inl IndexError"
        by (simp add: walk_test_fst same_view_def)
      then show ?thesis by (simp add: walk_post_def)
    next
      case (Cons n rest)
      then have "u \<in> fst ` set (adj g)"
        using dd_val_nondefault [of "adj g" "[]" u] by simp
      with vA have t: "?gA\<lparr>adj := dd_touch (adj ?gA) [] u\<rparr> = ?gA"
        by (simp add: same_view_def dd_touch_present)
      from vA Cons have cA: "dd_val (adj ?gA) [] u = n # rest" by (simp add: same_view_def)
      from True eq have "(case dd_val (adj ?gA) [] u of
           [] \<Rightarrow> Some (Inl IndexError)
         | next_w # rest \<Rightarrow>
             walk' (?gA\<lparr>adj := dd_touch (adj ?gA) [] u\<rparr>)
               (insert (u, next_w) vis) (path @ [u]) next_w) = Some y"
        by (simp only: walk_test_fst if_True)
      then have rec: "walk' ?gA (insert (u, n) vis) (path @ [u]) n = Some y"
        by (simp only: cA t list.case)
      note ih = ih [OF rec, unfolded walk_post_def]
      show ?thesis
        unfolding walk_post_def
      proof (intro allI impI)
        fix g' vis' path' u'
        assume y: "y = Inr (g', vis', path', u')"
        with ih have v': "same_view ?gA g'" and k': "has_keys g' ?gA"
          and s': "insert (u, n) vis \<subseteq> vis'"
          and f': "followed ?gA (insert (u, n) vis) (Some n) \<longrightarrow> followed ?gA vis' None"
          and r': "\<forall>g2. same_view ?gA g2 \<and> has_keys g2 g' \<longrightarrow>
              walk g2 (insert (u, n) vis) (path @ [u]) n = Some (Inr (g2, vis', path', u'))"
          by blast+
        have a: "same_view g g'" by (rule same_view_trans [OF vA v'])
        have b: "has_keys g' g" by (rule has_keys_trans [OF k' kA])
        have c: "followed g vis' None" if "followed g vis (Some u)"
        proof -
          from followed_step [OF that Cons] have "followed g (insert (u, n) vis) (Some n)" .
          with f' show ?thesis by (simp add: followed_same_view [OF vA])
        qed
        have d: "walk g2 vis path u = Some (Inr (g2, vis', path', u'))"
          if v2: "same_view g g2" and k2: "has_keys g2 g'" for g2
        proof -
          from True have i1: "dd_val (indeg g) 0 u = 1" by (simp add: interior_def)
          from has_keys_trans [OF k2 k'] walk_test_touched [where g = g and u = u] i1
          have "u \<in> fst ` set (indeg g2)" "u \<in> fst ` set (outdeg g2)"
            by (auto simp: has_keys_def)
          then have wt: "walk_test g2 u = (interior g2 u, g2)" by (intro walk_test_stable) simp_all
          from v2 Cons have adj2: "dd_val (adj g2) [] u = n # rest" by (simp add: same_view_def)
          then have "u \<in> fst ` set (adj g2)"
            using dd_val_nondefault [of "adj g2" "[]" u] by simp
          then have t2: "g2\<lparr>adj := dd_touch (adj g2) [] u\<rparr> = g2"
            by (simp add: dd_touch_present)
          have "same_view ?gA g2" by (rule same_view_trans [OF same_view_sym [OF vA] v2])
          with r' k2 have "walk g2 (insert (u, n) vis) (path @ [u]) n = Some (Inr (g2, vis', path', u'))"
            by blast
          with True interior_same_view [OF v2, of u] wt adj2 t2 show ?thesis
            by (subst walk.simps) simp
        qed
        from a b c d s' show "same_view g g' \<and> has_keys g' g \<and> vis \<subseteq> vis' \<and>
           (followed g vis (Some u) \<longrightarrow> followed g vis' None) \<and>
           (\<forall>g2. same_view g g2 \<and> has_keys g2 g' \<longrightarrow>
              walk g2 vis path u = Some (Inr (g2, vis', path', u')))"
          by auto
      qed
    qed
  qed
qed

section \<open>Runs of the for loops that return\<close>

lemma walk_returned:
  assumes "walk g vis path u = Some (Inr (g', vis', path', u'))"
  shows "same_view g g'" "has_keys g' g" "vis \<subseteq> vis'"
    "followed g vis (Some u) \<Longrightarrow> followed g vis' None"
    "same_view g g2 \<Longrightarrow> has_keys g2 g' \<Longrightarrow> walk g2 vis path u = Some (Inr (g2, vis', path', u'))"
  using walk_partial [OF assms] unfolding walk_post_def by blast+

lemma neighbor_loop_partial:
  "neighbor_loop v ws (g, vis, us) = Some (Inr (g', vis', us')) \<Longrightarrow>
     same_view g g' \<and> has_keys g' g \<and> vis \<subseteq> vis' \<and> (\<forall>w\<in>set ws. (v, w) \<in> vis') \<and>
     (followed g vis None \<longrightarrow> followed g vis' None) \<and>
     (\<forall>g2. same_view g g2 \<and> has_keys g2 g' \<longrightarrow>
        neighbor_loop v ws (g2, vis, us) = Some (Inr (g2, vis', us')))"
proof (induction ws arbitrary: g vis us)
  case Nil
  then show ?case by (auto simp: same_view_refl has_keys_refl)
next
  case (Cons w ws)
  show ?case
  proof (cases "(v, w) \<in> vis")
    case True
    with Cons.prems have "neighbor_loop v ws (g, vis, us) = Some (Inr (g', vis', us'))" by simp
    from Cons.IH [OF this] True show ?thesis by auto
  next
    case False
    with Cons.prems obtain g1 vis1 path u where
      w: "walk g (insert (v, w) vis) [v] w = Some (Inr (g1, vis1, path, u))"
      and n: "neighbor_loop v ws (g1, vis1, us @ [path @ [u]]) = Some (Inr (g', vis', us'))"
      by (auto split: option.splits sum.splits)
    note wr = walk_returned [OF w]
    note ih = Cons.IH [OF n]
    have a: "same_view g g'" using wr(1) ih by (blast intro: same_view_trans)
    have b: "has_keys g' g" using wr(2) ih by (blast intro: has_keys_trans)
    have c: "vis \<subseteq> vis'" "(v, w) \<in> vis'" using wr(3) ih by auto
    have d: "followed g vis' None" if "followed g vis None"
    proof -
      from that have "followed g (insert (v, w) vis) (Some w)" by (rule followed_start)
      then have "followed g vis1 None" by (rule wr(4))
      with ih show ?thesis by (simp add: followed_same_view [OF wr(1)])
    qed
    have e: "neighbor_loop v (w # ws) (g2, vis, us) = Some (Inr (g2, vis', us'))"
      if v2: "same_view g g2" and k2: "has_keys g2 g'" for g2
    proof -
      from ih have "has_keys g' g1" by simp
      with k2 have "has_keys g2 g1" by (rule has_keys_trans)
      from wr(5) [OF v2 this]
      have "walk g2 (insert (v, w) vis) [v] w = Some (Inr (g2, vis1, path, u))" .
      moreover have "same_view g1 g2" by (rule same_view_trans [OF same_view_sym [OF wr(1)] v2])
      with ih k2 have "neighbor_loop v ws (g2, vis1, us @ [path @ [u]]) = Some (Inr (g2, vis', us'))"
        by blast
      ultimately show ?thesis using False by simp
    qed
    from a b c d e ih show ?thesis by auto
  qed
qed

lemma anchor_loop_partial:
  "set vs \<subseteq> fst ` set (adj g) \<Longrightarrow>
   anchor_loop vs (g, vis, us) = Some (Inr (g', vis', us')) \<Longrightarrow>
     same_view g g' \<and> has_keys g' g \<and> vis \<subseteq> vis' \<and>
     (\<forall>v\<in>set vs. \<forall>w\<in>set (dd_val (adj g) [] v). (v, w) \<in> vis') \<and>
     (followed g vis None \<longrightarrow> followed g vis' None) \<and>
     (\<forall>g2. same_view g g2 \<and> has_keys g2 g' \<longrightarrow>
        anchor_loop vs (g2, vis, us) = Some (Inr (g2, vis', us')))"
proof (induction vs arbitrary: g vis us)
  case Nil
  then show ?case by (auto simp: same_view_refl has_keys_refl)
next
  case (Cons v vs)
  from Cons.prems(1) have k: "v \<in> fst ` set (adj g)" and ks: "set vs \<subseteq> fst ` set (adj g)"
    by simp_all
  have t: "g\<lparr>adj := dd_touch (adj g) [] v\<rparr> = g" using k by (simp add: dd_touch_present)
  from Cons.prems(2) obtain g1 vis1 us1 where
    n: "neighbor_loop v (dd_val (adj g) [] v) (g, vis, us) = Some (Inr (g1, vis1, us1))"
    and l: "anchor_loop vs (g1, vis1, us1) = Some (Inr (g', vis', us'))"
    by (auto simp: t split: option.splits sum.splits)
  note np = neighbor_loop_partial [OF n]
  from np have v1: "same_view g g1" by simp
  then have adj1: "adj g1 = adj g" by (simp add: same_view_def)
  from ks adj1 have "set vs \<subseteq> fst ` set (adj g1)" by simp
  note ih = Cons.IH [OF this l]
  have a: "same_view g g'" using v1 ih by (blast intro: same_view_trans)
  have b: "has_keys g' g" using np ih by (blast intro: has_keys_trans)
  have c: "vis \<subseteq> vis'" using np ih by blast
  have d: "\<forall>x\<in>set (v # vs). \<forall>w\<in>set (dd_val (adj g) [] x). (x, w) \<in> vis'"
    using np ih adj1 by auto
  have e: "followed g vis' None" if "followed g vis None"
    using that np ih by (simp add: followed_same_view [OF v1])
  have f: "anchor_loop (v # vs) (g2, vis, us) = Some (Inr (g2, vis', us'))"
    if v2: "same_view g g2" and k2: "has_keys g2 g'" for g2
  proof -
    from v2 have adj2: "adj g2 = adj g" by (simp add: same_view_def)
    from k have "dd_touch (adj g) [] v = adj g2" by (simp add: dd_touch_present adj2)
    then have t2: "g2\<lparr>adj := dd_touch (adj g) [] v\<rparr> = g2" by simp
    from ih have "has_keys g' g1" by simp
    with k2 have "has_keys g2 g1" by (rule has_keys_trans)
    with np v2 have "neighbor_loop v (dd_val (adj g) [] v) (g2, vis, us) = Some (Inr (g2, vis1, us1))"
      by blast
    moreover have "same_view g1 g2" by (rule same_view_trans [OF same_view_sym [OF v1] v2])
    with ih k2 have "anchor_loop vs (g2, vis1, us1) = Some (Inr (g2, vis', us'))" by blast
    ultimately show ?thesis by (simp add: t2 adj2)
  qed
  from a b c d e f show ?case by blast
qed

lemma select_anchors_partial:
  "select_anchors vs g = (as, g') \<Longrightarrow>
     as = filter (\<lambda>v. \<not> interior g v) vs \<and> same_view g g' \<and> has_keys g' g \<and>
     (\<forall>g2. same_view g g2 \<and> has_keys g2 g' \<longrightarrow> select_anchors vs g2 = (as, g2))"
proof (induction vs arbitrary: g as)
  case Nil
  then show ?case by (auto simp: same_view_refl has_keys_refl)
next
  case (Cons v vs)
  let ?g1 = "snd (is_anchor g v)"
  obtain as1 where s: "select_anchors vs ?g1 = (as1, g')"
    and as: "as = (if \<not> interior g v then v # as1 else as1)"
    using Cons.prems by (cases "select_anchors vs ?g1") (auto simp: Let_def is_anchor_fst)
  have v1: "same_view g ?g1" by (rule is_anchor_view)
  have k1: "has_keys ?g1 g" by (rule is_anchor_keys)
  note ih = Cons.IH [OF s]
  have a: "as = filter (\<lambda>v. \<not> interior g v) (v # vs)"
    using as ih by (simp add: interior_same_view [OF v1])
  have b: "same_view g g'" using v1 ih by (blast intro: same_view_trans)
  have c: "has_keys g' g" using k1 ih by (blast intro: has_keys_trans)
  have d: "select_anchors (v # vs) g2 = (as, g2)"
    if v2: "same_view g g2" and k2: "has_keys g2 g'" for g2
  proof -
    from ih have "has_keys g' ?g1" by simp
    with k2 have k21: "has_keys g2 ?g1" by (rule has_keys_trans)
    with is_anchor_touched(1) [of v g] have "v \<in> fst ` set (indeg g2)"
      by (auto simp: has_keys_def)
    moreover have "dd_val (indeg g2) 0 v = 1 \<longrightarrow> v \<in> fst ` set (outdeg g2)"
      using k21 v2 is_anchor_touched(2) [of g v] by (auto simp: has_keys_def same_view_def)
    ultimately have "is_anchor g2 v = (\<not> interior g2 v, g2)" by (rule is_anchor_stable)
    moreover have "same_view ?g1 g2" by (rule same_view_trans [OF same_view_sym [OF v1] v2])
    with ih k2 have "select_anchors vs g2 = (as1, g2)" by blast
    ultimately show ?thesis using as by (simp add: interior_same_view [OF v2])
  qed
  from a b c d show ?case by blast
qed

section \<open>A call of the extractor that returns\<close>


lemma find_unitigs_returned:
  assumes "find_unitigs g = Some (Inr (g', us))"
  shows "\<exists>g1 vis. select_anchors (map fst (adj g)) g = (filter (\<lambda>v. \<not> interior g v) (map fst (adj g)), g1) \<and>
     anchor_loop (filter (\<lambda>v. \<not> interior g v) (map fst (adj g))) (g1, {}, []) = Some (Inr (g', vis, us)) \<and>
     same_view g g1 \<and> has_keys g1 g"
proof -
  obtain as g1 where s: "select_anchors (map fst (adj g)) g = (as, g1)"
    by (cases "select_anchors (map fst (adj g)) g")
  note sp = select_anchors_partial [OF s]
  from assms s obtain vis where "anchor_loop as (g1, {}, []) = Some (Inr (g', vis, us))"
    by (auto simp: find_unitigs_def split: option.splits sum.splits)
  with s sp show ?thesis by auto
qed


section \<open>Properties of the graph builder\<close>

text \<open>
  C2: for every list of reads and every \<open>k > 0\<close>, the number of edge occurrences recorded
  by \<open>build_debruijn_graph\<close> (the sum of the lengths of the adjacency lists) is the sum
  over the reads of \<open>max(0, len(read) - k)\<close>; a read of length at most \<open>k\<close> leaves the
  graph as it is.
\<close>

theorem build_edge_count:
  "0 < k \<Longrightarrow>
   edge_count (build_debruijn_graph reads k) = (\<Sum>r\<leftarrow>reads. max 0 (int (length r) - k)) \<and>
   (\<forall>g r. int (length r) \<le> k \<longrightarrow> read_step k g r = g)"
  by (simp add: build_debruijn_graph_def edge_count_reads edge_count_empty read_step_short)

theorem build_edge_count_witness:
  "(0::int) < 3 \<and> edge_count (build_debruijn_graph [''AAAAC'', ''AAACG'', ''ACG'', ''AC''] 3) = 4 \<and>
   read_step 3 (build_debruijn_graph [''AAAAC''] 3) ''ACG'' = build_debruijn_graph [''AAAAC''] 3"
  using build_edge_count [of 3 "[''AAAAC'', ''AAACG'', ''ACG'', ''AC'']"]
    build_edge_count [of 3 "[]"] by simp

text \<open>
  C4: in the triple returned by \<open>build_debruijn_graph\<close>, the outdegree values and the
  indegree values have the same sum, the number of edge occurrences in the adjacency map.
\<close>

theorem build_degree_sums:
  "degree_sum (outdeg (build_debruijn_graph reads k)) =
     degree_sum (indeg (build_debruijn_graph reads k)) \<and>
   degree_sum (indeg (build_debruijn_graph reads k)) = edge_count (build_debruijn_graph reads k)"
proof (induction rule: build_induct)
  case 1
  show ?case by (simp add: empty_graph_def degree_sum_def edge_count_def)
next
  case (2 g u v)
  then show ?case
    by (simp add: indeg_add_edge outdeg_add_edge degree_sum_incr edge_count_add_edge)
qed

text \<open>
  C3, as the code has it: \<open>build_debruijn_graph\<close> always returns, and what it returns is
  the empty adjacency map with empty degree maps exactly when no read is longer than
  \<open>k\<close>; this is so when \<open>k\<close> exceeds the length of every read.
\<close>

theorem build_empty_iff:
  "build_debruijn_graph reads k = empty_graph \<longleftrightarrow> (\<forall>r\<in>set reads. int (length r) \<le> k)"
proof
  assume "\<forall>r\<in>set reads. int (length r) \<le> k"
  then show "build_debruijn_graph reads k = empty_graph"
    by (simp add: build_debruijn_graph_def reads_short)
next
  assume e: "build_debruijn_graph reads k = empty_graph"
  have "edge_count (build_debruijn_graph reads k) = (\<Sum>r\<leftarrow>reads. max 0 (int (length r) - k))"
    by (simp add: build_debruijn_graph_def edge_count_reads edge_count_empty)
  with e have "(\<Sum>r\<leftarrow>reads. max 0 (int (length r) - k)) = 0"
    by (simp add: edge_count_empty)
  then have "\<forall>x\<in>set (map (\<lambda>r. max 0 (int (length r) - k)) reads). x = 0"
    by (subst (asm) sum_list_nonneg_eq_0_iff) auto
  then show "\<forall>r\<in>set reads. int (length r) \<le> k" by auto
qed

theorem build_empty_iff_witness:
  "int (length ''ACG'') \<le> 3 \<and> int (length ''AC'') \<le> 3 \<and>
   build_debruijn_graph [''ACG'', ''AC''] 3 = empty_graph \<and>
   build_debruijn_graph [''ACG'', ''AC''] 4 = empty_graph"
  using build_empty_iff [of "[''ACG'', ''AC'']" 3] build_empty_iff [of "[''ACG'', ''AC'']" 4]
  by simp

text \<open>
  C3 as stated also promises the empty graph for \<open>k \<le> 0\<close>. With \<open>k = 0\<close> the read
  \<open>A\<close> has one window, whose two slices are empty strings: the graph has the edge from
  the empty string to itself.
\<close>

theorem build_empty_counterexample:
  "(0::int) \<le> 0 \<and> build_debruijn_graph [''A''] 0 \<noteq> empty_graph \<and>
   adj (build_debruijn_graph [''A''] 0) = [('''', [''''])]"
  by code_simp

text \<open>
  C5: every node of a recorded edge, source or destination, has an entry in the indegree
  map and an entry in the outdegree map; the entry is 0 when the node is the destination
  of no edge, respectively the source of no edge.
\<close>

theorem build_degree_entries:
  assumes "(u, v) \<in> set (edges_of (adj (build_debruijn_graph reads k)))" and "x = u \<or> x = v"
  shows "(\<exists>i. map_of (indeg (build_debruijn_graph reads k)) x = Some i \<and>
            (x \<notin> snd ` set (edges_of (adj (build_debruijn_graph reads k))) \<longrightarrow> i = 0)) \<and>
         (\<exists>j. map_of (outdeg (build_debruijn_graph reads k)) x = Some j \<and>
            (x \<notin> fst ` set (edges_of (adj (build_debruijn_graph reads k))) \<longrightarrow> j = 0))"
proof -
  let ?g = "build_debruijn_graph reads k"
  have wf: "wf_graph ?g" by (rule wf_graph_build)
  from wf_edge_keys [OF wf assms(1)] assms(2)
  have ki: "x \<in> fst ` set (indeg ?g)" and ko: "x \<in> fst ` set (outdeg ?g)" by auto
  have i: "dd_val (indeg ?g) 0 x = 0" if "x \<notin> snd ` set (edges_of (adj ?g))"
  proof -
    from that have "filter (\<lambda>e. snd e = x) (edges_of (adj ?g)) = []"
      by (auto simp: filter_empty_conv)
    with wf show ?thesis by (simp add: wf_graph_def)
  qed
  have o: "dd_val (outdeg ?g) 0 x = 0" if "x \<notin> fst ` set (edges_of (adj ?g))"
  proof -
    from that have "\<forall>y. (x, y) \<notin> set (edges_of (adj ?g))" by force
    with wf have "set (dd_val (adj ?g) [] x) = {}" by (simp add: wf_edge_iff)
    with wf show ?thesis by (simp add: wf_graph_def)
  qed
  from i o dd_val_map_of [OF ki, of 0] dd_val_map_of [OF ko, of 0] show ?thesis by simp
qed

theorem build_degree_entries_witness:
  "(''AAC'', ''ACG'') \<in> set (edges_of (adj (build_debruijn_graph [''AAAAC'', ''AAACG''] 3))) \<and>
   ''ACG'' \<notin> fst ` set (edges_of (adj (build_debruijn_graph [''AAAAC'', ''AAACG''] 3))) \<and>
   map_of (indeg (build_debruijn_graph [''AAAAC'', ''AAACG''] 3)) ''ACG'' = Some 1 \<and>
   map_of (outdeg (build_debruijn_graph [''AAAAC'', ''AAACG''] 3)) ''ACG'' = Some 0"
proof -
  have e: "(''AAC'', ''ACG'') \<in> set (edges_of (adj (build_debruijn_graph [''AAAAC'', ''AAACG''] 3)))"
    by code_simp
  have n: "''ACG'' \<notin> fst ` set (edges_of (adj (build_debruijn_graph [''AAAAC'', ''AAACG''] 3)))"
    by code_simp
  have i: "map_of (indeg (build_debruijn_graph [''AAAAC'', ''AAACG''] 3)) ''ACG'' = Some 1"
    by code_simp
  from build_degree_entries [OF e, of "''ACG''"] n i e show ?thesis by auto
qed

section \<open>Properties of the unitig extractor\<close>

text \<open>
  C1, as the code has it: on every graph produced by \<open>build_debruijn_graph\<close>,
  \<open>find_unitigs\<close> returns, and the consecutive (node, next-node) pairs of the returned
  unitigs are exactly the recorded edges that can be reached from an anchor, each of them
  exactly once. Edges that no anchor reaches (a pure cycle) belong to no unitig.
\<close>

theorem find_unitigs_pairs:
  "\<exists>us. find_unitigs (build_debruijn_graph reads k) = Some (Inr (build_debruijn_graph reads k, us)) \<and>
     set (all_pairs us) = reach (build_debruijn_graph reads k) \<and>
     distinct (all_pairs us) \<and>
     reach (build_debruijn_graph reads k) \<subseteq> set (edges_of (adj (build_debruijn_graph reads k)))"
proof -
  let ?g = "build_debruijn_graph reads k"
  have wf: "wf_graph ?g" by (rule wf_graph_build)
  from find_unitigs_wf [OF wf] obtain us where
    f: "find_unitigs ?g = Some (Inr (?g, us))" and c: "covered ?g (set (all_pairs us)) us"
    and a: "\<forall>v w. (v, w) \<in> set (edges_of (adj ?g)) \<longrightarrow> \<not> interior ?g v \<longrightarrow> (v, w) \<in> set (all_pairs us)"
    by blast
  from covered_reach [OF wf c a] have "set (all_pairs us) = reach ?g" .
  moreover from c have "distinct (all_pairs us)" by (simp add: covered_def)
  ultimately show ?thesis using f reach_edges [of ?g] by blast
qed

theorem find_unitigs_pairs_witness:
  "reach (build_debruijn_graph [''ABCAD''] 1) =
     {(''A'', ''B''), (''B'', ''C''), (''C'', ''A''), (''A'', ''D'')}"
proof -
  have "find_unitigs (build_debruijn_graph [''ABCAD''] 1) =
      Some (Inr (build_debruijn_graph [''ABCAD''] 1, [[''A'', ''B'', ''C'', ''A''], [''A'', ''D'']]))"
    by code_simp
  with find_unitigs_pairs [of "[''ABCAD'']" 1]
  have "set (all_pairs [[''A'', ''B'', ''C'', ''A''], [''A'', ''D'']]) =
      reach (build_debruijn_graph [''ABCAD''] 1)" by auto
  then show ?thesis by (simp add: all_pairs_def)
qed

text \<open>
  C1 as stated asks for every recorded edge. The read \<open>ACGAC\<close> with \<open>k = 2\<close> gives the
  cycle \<open>AC \<rightarrow> CG \<rightarrow> GA \<rightarrow> AC\<close>, which has no anchor: no unitig is returned and the three
  edges are in no pair.
\<close>

theorem find_unitigs_pairs_counterexample:
  "find_unitigs (build_debruijn_graph [''ACGAC''] 2) =
     Some (Inr (build_debruijn_graph [''ACGAC''] 2, [])) \<and>
   set (all_pairs []) \<noteq> set (edges_of (adj (build_debruijn_graph [''ACGAC''] 2)))"
  by code_simp

text \<open>
  C9: on every graph produced by \<open>build_debruijn_graph\<close>, the three dictionaries that
  \<open>find_unitigs\<close> leaves behind are the ones it was given: no key is added and no value
  is changed.
\<close>

theorem find_unitigs_frame:
  "find_unitigs (build_debruijn_graph reads k) = Some (Inr (g', us)) \<Longrightarrow>
   g' = build_debruijn_graph reads k"
  using find_unitigs_wf [OF wf_graph_build, of reads k] by auto

theorem find_unitigs_frame_witness:
  "find_unitigs (build_debruijn_graph [''AAAAC'', ''AAACG''] 3) =
     Some (Inr (\<lparr>adj = [(''AAA'', [''AAA'', ''AAC'', ''AAC'']), (''AAC'', [''ACG''])],
                 indeg = [(''AAA'', 1), (''AAC'', 2), (''ACG'', 1)],
                 outdeg = [(''AAA'', 3), (''AAC'', 1), (''ACG'', 0)]\<rparr>,
                [[''AAA'', ''AAA''], [''AAA'', ''AAC''], [''AAC'', ''ACG'']])) \<and>
   \<lparr>adj = [(''AAA'', [''AAA'', ''AAC'', ''AAC'']), (''AAC'', [''ACG''])],
     indeg = [(''AAA'', 1), (''AAC'', 2), (''ACG'', 1)],
     outdeg = [(''AAA'', 3), (''AAC'', 1), (''ACG'', 0)]\<rparr> =
   build_debruijn_graph [''AAAAC'', ''AAACG''] 3"
proof -
  have e: "find_unitigs (build_debruijn_graph [''AAAAC'', ''AAACG''] 3) =
     Some (Inr (\<lparr>adj = [(''AAA'', [''AAA'', ''AAC'', ''AAC'']), (''AAC'', [''ACG''])],
                 indeg = [(''AAA'', 1), (''AAC'', 2), (''ACG'', 1)],
                 outdeg = [(''AAA'', 3), (''AAC'', 1), (''ACG'', 0)]\<rparr>,
                [[''AAA'', ''AAA''], [''AAA'', ''AAC''], [''AAC'', ''ACG'']]))"
    by code_simp
  from e find_unitigs_frame [OF e] show ?thesis by (rule conjI)
qed

text \<open>
  C10: on every graph produced by \<open>build_debruijn_graph\<close>, \<open>find_unitigs\<close> returns a
  list of unitigs: every run of the \<open>while\<close> loop ends. The loop never comes back to a
  node: apart from its last node, a returned path has no repetition.
\<close>

theorem find_unitigs_terminates:
  "\<exists>g' us. find_unitigs (build_debruijn_graph reads k) = Some (Inr (g', us)) \<and>
     (\<forall>p\<in>set us. distinct (butlast p))"
proof -
  let ?g = "build_debruijn_graph reads k"
  from find_unitigs_wf [OF wf_graph_build] obtain us where
    f: "find_unitigs ?g = Some (Inr (?g, us))" and c: "covered ?g (set (all_pairs us)) us"
    by blast
  from c have "\<forall>p\<in>set us. distinct (butlast p)"
    by (simp add: covered_def unitig_def chain_def)
  with f show ?thesis by blast
qed

theorem find_unitigs_terminates_witness:
  "find_unitigs (build_debruijn_graph [''ABCAD''] 1) =
     Some (Inr (build_debruijn_graph [''ABCAD''] 1, [[''A'', ''B'', ''C'', ''A''], [''A'', ''D'']])) \<and>
   distinct (butlast [''A'', ''B'', ''C'', ''A'']) \<and> distinct (butlast [''A'', ''D''])"
proof -
  have e: "find_unitigs (build_debruijn_graph [''ABCAD''] 1) =
      Some (Inr (build_debruijn_graph [''ABCAD''] 1, [[''A'', ''B'', ''C'', ''A''], [''A'', ''D'']]))"
    by code_simp
  with find_unitigs_terminates [of "[''ABCAD'']" 1]
  have "\<forall>p\<in>set [[''A'', ''B'', ''C'', ''A''], [''A'', ''D'']]. distinct (butlast p)" by auto
  with e show ?thesis by simp
qed

text \<open>
  C6: when every key of the adjacency map has indegree 1 and outdegree 1, no key is
  selected as an anchor and \<open>find_unitigs\<close> returns the empty list, with no error and the
  dictionaries unchanged.
\<close>

theorem pure_cycle_no_unitigs:
  assumes "\<forall>v\<in>fst ` set (adj g). dd_val (indeg g) 0 v = 1 \<and> dd_val (outdeg g) 0 v = 1"
  shows "select_anchors (map fst (adj g)) g = ([], g) \<and> find_unitigs g = Some (Inr (g, []))"
proof -
  have k: "v \<in> fst ` set (indeg g) \<and> v \<in> fst ` set (outdeg g)" if "v \<in> fst ` set (adj g)" for v
    using assms that dd_val_nondefault [of "indeg g" 0 v] dd_val_nondefault [of "outdeg g" 0 v]
    by auto
  then have "select_anchors (map fst (adj g)) g = (filter (\<lambda>v. \<not> interior g v) (map fst (adj g)), g)"
    by (intro select_anchors_present) auto
  moreover have "filter (\<lambda>v. \<not> interior g v) (map fst (adj g)) = []"
    using assms by (auto simp: filter_empty_conv interior_def)
  ultimately have "select_anchors (map fst (adj g)) g = ([], g)" by simp
  then show ?thesis by (simp add: find_unitigs_def)
qed

theorem pure_cycle_no_unitigs_witness:
  "find_unitigs \<lparr>adj = [(''A'', [''B'']), (''B'', [''C'']), (''C'', [''A''])],
                  indeg = [(''A'', 1), (''B'', 1), (''C'', 1)],
                  outdeg = [(''A'', 1), (''B'', 1), (''C'', 1)]\<rparr> =
   Some (Inr (\<lparr>adj = [(''A'', [''B'']), (''B'', [''C'']), (''C'', [''A''])],
               indeg = [(''A'', 1), (''B'', 1), (''C'', 1)],
               outdeg = [(''A'', 1), (''B'', 1), (''C'', 1)]\<rparr>, []))"
proof -
  let ?g = "\<lparr>adj = [(''A'', [''B'']), (''B'', [''C'']), (''C'', [''A''])],
             indeg = [(''A'', 1), (''B'', 1), (''C'', 1)],
             outdeg = [(''A'', 1), (''B'', 1), (''C'', 1)]\<rparr>"
  have "\<forall>v\<in>fst ` set (adj ?g). dd_val (indeg ?g) 0 v = 1 \<and> dd_val (outdeg ?g) 0 v = 1"
    by (simp add: dd_val_def)
  from pure_cycle_no_unitigs [OF this] show ?thesis by simp
qed



section \<open>Repeated runs\<close>

text \<open>
  A second run of \<open>find_unitigs\<close> on the same graph object sees the keys that the first
  run inserted by reading the \<open>defaultdict\<close>s. They make no difference: for every graph,
  a second run on the dictionaries as the first run left them returns the same unitigs
  in the same order, and changes nothing any more. That two runs on equal arguments
  agree is not a statement about these definitions: each of them is a function of its
  arguments.
\<close>

theorem find_unitigs_rerun:
  assumes "find_unitigs g = Some (Inr (g', us))"
  shows "find_unitigs g' = Some (Inr (g', us))"
proof -
  let ?as = "filter (\<lambda>v. \<not> interior g v) (map fst (adj g))"
  from find_unitigs_returned [OF assms] obtain g1 vis where
    s: "select_anchors (map fst (adj g)) g = (?as, g1)"
    and l: "anchor_loop ?as (g1, {}, []) = Some (Inr (g', vis, us))"
    and v1: "same_view g g1" and k1: "has_keys g1 g" by blast
  from v1 have adj1: "adj g1 = adj g" by (simp add: same_view_def)
  then have "set ?as \<subseteq> fst ` set (adj g1)" by auto
  note ap = anchor_loop_partial [OF this l]
  from ap have v': "same_view g1 g'" and k': "has_keys g' g1" by simp_all
  have v: "same_view g g'" by (rule same_view_trans [OF v1 v'])
  then have adj': "adj g' = adj g" by (simp add: same_view_def)
  from select_anchors_partial [OF s] v k'
  have "select_anchors (map fst (adj g)) g' = (?as, g')" by blast
  moreover from ap v' has_keys_refl [of g']
  have "anchor_loop ?as (g', {}, []) = Some (Inr (g', vis, us))" by blast
  ultimately show ?thesis by (simp add: find_unitigs_def adj')
qed

theorem find_unitigs_rerun_witness:
  "find_unitigs \<lparr>adj = [(''A'', [''B''])], indeg = [], outdeg = [(''A'', 1)]\<rparr> =
     Some (Inr (\<lparr>adj = [(''A'', [''B''])], indeg = [(''A'', 0), (''B'', 0)], outdeg = [(''A'', 1)]\<rparr>,
                [[''A'', ''B'']])) \<and>
   find_unitigs \<lparr>adj = [(''A'', [''B''])], indeg = [(''A'', 0), (''B'', 0)], outdeg = [(''A'', 1)]\<rparr> =
     Some (Inr (\<lparr>adj = [(''A'', [''B''])], indeg = [(''A'', 0), (''B'', 0)], outdeg = [(''A'', 1)]\<rparr>,
                [[''A'', ''B'']]))"
proof -
  have e: "find_unitigs \<lparr>adj = [(''A'', [''B''])], indeg = [], outdeg = [(''A'', 1)]\<rparr> =
     Some (Inr (\<lparr>adj = [(''A'', [''B''])], indeg = [(''A'', 0), (''B'', 0)], outdeg = [(''A'', 1)]\<rparr>,
                [[''A'', ''B'']]))"
    by code_simp
  from e find_unitigs_rerun [OF e] show ?thesis by (rule conjI)
qed


end
